theory Spec2Isabelle
  imports Main "HOL-Library.Sublist"
begin

section \<open>Python built-ins used by code\_search.py\<close>

text \<open>
  Python strings are modelled as \<^typ>\<open>string\<close>, one \<^typ>\<open>char\<close> per code point, so the
  model covers the code points below 256. Exceptions are values of \<open>error\<close>; a function
  that can raise returns \<open>error + 'a\<close> with \<open>Inl\<close> for the exception.
\<close>

datatype error = ValueError | OSError

text \<open>
  \<open>str.isspace\<close> on one character: the code points below 256 that Python treats as
  whitespace (TAB, LF, VT, FF, CR, FS, GS, RS, US, SPACE, NEL, NBSP).
\<close>

definition whitespace :: "char list" where
  "whitespace =
     [CHR 0x09, CHR 0x0A, CHR 0x0B, CHR 0x0C, CHR 0x0D, CHR 0x1C, CHR 0x1D, CHR 0x1E,
      CHR 0x1F, CHR 0x20, CHR 0x85, CHR 0xA0]"

definition isspace :: "char \<Rightarrow> bool" where
  "isspace c = (c \<in> set whitespace)"

text \<open>\<open>str.lstrip()\<close>, \<open>str.rstrip()\<close> and \<open>str.strip()\<close> with no argument.\<close>

definition lstrip :: "string \<Rightarrow> string" where
  "lstrip s = dropWhile isspace s"

definition rstrip :: "string \<Rightarrow> string" where
  "rstrip s = rev (dropWhile isspace (rev s))"

definition strip :: "string \<Rightarrow> string" where
  "strip s = rstrip (lstrip s)"

text \<open>\<open>sub in s\<close> on strings: \<open>sub\<close> occurs in \<open>s\<close> as a contiguous substring.\<close>

fun str_contains :: "string \<Rightarrow> string \<Rightarrow> bool" where
  "str_contains sub [] = (sub = [])"
| "str_contains sub (c # cs) = (prefix sub (c # cs) \<or> str_contains sub cs)"

text \<open>
  \<open>s.split(sep, maxsplit)\<close> for a non-empty separator: scan from the left, cut at each
  occurrence of \<open>sep\<close> and go on behind it, at most \<open>maxsplit\<close> times (\<open>None\<close> is
  Python's default \<open>-1\<close>, no limit). The result always has at least one piece.
\<close>

fun split_from :: "string \<Rightarrow> nat option \<Rightarrow> string \<Rightarrow> string list" where
  "split_from sep m [] = [[]]"
| "split_from sep m (c # cs) =
     (if m \<noteq> Some 0 \<and> sep \<noteq> [] \<and> prefix sep (c # cs)
      then [] # split_from sep (map_option (\<lambda>k. k - 1) m) (drop (length sep - 1) cs)
      else (case split_from sep m cs of
              [] \<Rightarrow> [[c]]
            | p # ps \<Rightarrow> (c # p) # ps))"

text \<open>An empty separator raises \<open>ValueError("empty separator")\<close>.\<close>

definition str_split :: "string \<Rightarrow> string \<Rightarrow> nat option \<Rightarrow> error + string list" where
  "str_split s sep maxsplit =
     (if sep = [] then Inl ValueError else Inr (split_from sep maxsplit s))"

text \<open>\<open>sep.join(xs)\<close>.\<close>

fun str_join :: "string \<Rightarrow> string list \<Rightarrow> string" where
  "str_join sep [] = []"
| "str_join sep [x] = x"
| "str_join sep (x # y # ys) = x @ sep @ str_join sep (y # ys)"

text \<open>
  \<open>int(s)\<close> in base 10. The whitespace that \<open>int\<close> skips at both ends is not that of
  \<open>str.strip\<close>: below 128 only TAB, LF, VT, FF, CR and SPACE are skipped (FS, GS, RS
  and US are not), and above it NEL and NBSP are. Then one sign is allowed, then decimal
  digits, where single underscores may stand between two digits. A text with more than
  \<open>sys.int_max_str_digits\<close> digits (4300 by default) is refused. Anything else raises
  \<open>ValueError\<close>. The result is any integer: zero and negative numbers are accepted.
\<close>

definition int_whitespace :: "char list" where
  "int_whitespace =
     [CHR 0x09, CHR 0x0A, CHR 0x0B, CHR 0x0C, CHR 0x0D, CHR 0x20, CHR 0x85, CHR 0xA0]"

definition int_isspace :: "char \<Rightarrow> bool" where
  "int_isspace c = (c \<in> set int_whitespace)"

definition int_strip :: "string \<Rightarrow> string" where
  "int_strip s = rev (dropWhile int_isspace (rev (dropWhile int_isspace s)))"

definition int_max_str_digits :: nat where
  "int_max_str_digits = 4300"

definition isdigit :: "char \<Rightarrow> bool" where
  "isdigit c = (c \<in> set ''0123456789'')"

definition digit_value :: "char \<Rightarrow> nat" where
  "digit_value c = length (takeWhile (\<lambda>d. d \<noteq> c) ''0123456789'')"

text \<open>
  \<open>int_digits prev acc s\<close>: \<open>prev\<close> says that the character before \<open>s\<close> was a digit
  (an underscore is allowed only then, and the text may end only then); \<open>acc\<close> is the
  value read so far.
\<close>

fun int_digits :: "bool \<Rightarrow> nat \<Rightarrow> string \<Rightarrow> nat option" where
  "int_digits prev acc [] = (if prev then Some acc else None)"
| "int_digits prev acc (c # cs) =
     (if isdigit c then int_digits True (10 * acc + digit_value c) cs
      else if c = CHR ''_'' \<and> prev then int_digits False acc cs
      else None)"

text \<open>The digits behind the sign: well formed, and not more than the limit allows.\<close>

definition int_literal :: "string \<Rightarrow> nat option" where
  "int_literal s =
     (case int_digits False 0 s of
        None \<Rightarrow> None
      | Some n \<Rightarrow> if int_max_str_digits < length (filter isdigit s) then None else Some n)"

definition py_int :: "string \<Rightarrow> error + int" where
  "py_int s =
     (case int_strip s of
        [] \<Rightarrow> Inl ValueError
      | c # r \<Rightarrow>
          (if c = CHR ''-'' then
             (case int_literal r of None \<Rightarrow> Inl ValueError | Some n \<Rightarrow> Inr (- int n))
           else if c = CHR ''+'' then
             (case int_literal r of None \<Rightarrow> Inl ValueError | Some n \<Rightarrow> Inr (int n))
           else
             (case int_literal (c # r) of
                None \<Rightarrow> Inl ValueError
              | Some n \<Rightarrow> Inr (int n))))"

text \<open>\<open>str(n)\<close> for an integer, as the f-string \<open>f"{filepath}:{lineno}"\<close> formats it.\<close>

fun str_nat :: "nat \<Rightarrow> string" where
  "str_nat n =
     (if n < 10 then [''0123456789'' ! n]
      else str_nat (n div 10) @ [''0123456789'' ! (n mod 10)])"

definition str_int :: "int \<Rightarrow> string" where
  "str_int i = (if i < 0 then CHR ''-'' # str_nat (nat (- i)) else str_nat (nat i))"

text \<open>
  \<open>os.path.join(a, b)\<close> of \<open>posixpath\<close>: an absolute \<open>b\<close> replaces \<open>a\<close>; otherwise
  \<open>b\<close> is appended, behind a slash unless \<open>a\<close> is empty or ends with one.
\<close>

definition path_join :: "string \<Rightarrow> string \<Rightarrow> string" where
  "path_join a b =
     (if prefix ''/'' b then b
      else if a = [] \<or> suffix ''/'' a then a @ b
      else a @ ''/'' @ b)"

section \<open>HighlightDelegate.paint\<close>

text \<open>
  The delegate draws the cell text as a sequence of \<open>drawText\<close> calls. A call is
  recorded as the text drawn and whether the pen was the red keyword pen. The loop over
  \<open>enumerate(segments)\<close> draws every segment with the text pen and, behind every
  segment but the last, the keyword in red. With an empty keyword, or one that does not
  occur, the default painter draws the whole text.
\<close>

fun draw_segments :: "string \<Rightarrow> string list \<Rightarrow> (string \<times> bool) list" where
  "draw_segments keyword [] = []"
| "draw_segments keyword [segment] = [(segment, False)]"
| "draw_segments keyword (segment # next # rest) =
     (segment, False) # (keyword, True) # draw_segments keyword (next # rest)"

definition paint :: "string \<Rightarrow> string \<Rightarrow> error + (string \<times> bool) list" where
  "paint keyword text =
     (if keyword = [] \<or> \<not> str_contains keyword text then Inr [(text, False)]
      else (case str_split text keyword None of
              Inl e \<Rightarrow> Inl e
            | Inr segments \<Rightarrow> Inr (draw_segments keyword segments)))"

section \<open>RipgrepTreeViewer.perform\_search\<close>

text \<open>
  \<open>files\<close> is a Python dict from the full path to a list of \<open>(int, str)\<close> pairs. A
  dict iterates in insertion order, so it is an association list with distinct keys,
  new keys appended at the end.
\<close>

type_synonym match_line = "int \<times> string"
type_synonym files_dict = "(string \<times> match_line list) list"

definition dict_has :: "files_dict \<Rightarrow> string \<Rightarrow> bool" where
  "dict_has files k = (k \<in> set (map fst files))"

text \<open>\<open>files[k] = []\<close> for a key that is not in the dict.\<close>

definition dict_new :: "string \<Rightarrow> files_dict \<Rightarrow> files_dict" where
  "dict_new k files = files @ [(k, [])]"

text \<open>\<open>files[k].append(v)\<close> for a key of the dict.\<close>

definition dict_append :: "string \<Rightarrow> match_line \<Rightarrow> files_dict \<Rightarrow> files_dict" where
  "dict_append k v files = map (\<lambda>(k', vs). if k' = k then (k', vs @ [v]) else (k', vs)) files"

text \<open>
  One pass of the loop body (lines 140 to 150) on the state \<open>(files, out)\<close>, where
  \<open>out\<close> collects the lines printed by the \<open>[DEBUG]\<close> statement.
\<close>

definition parse_line ::
  "string \<Rightarrow> string \<Rightarrow> files_dict \<times> string list \<Rightarrow> error + (files_dict \<times> string list)" where
  "parse_line root_path line st =
     (case st of (files, out) \<Rightarrow>
        if \<not> str_contains '':'' line then Inr (files, out)
        else (case str_split line '':'' (Some 2) of
                Inl e \<Rightarrow> Inl e
              | Inr parts \<Rightarrow>
                  if length parts < 3 then Inr (files, out)
                  else (case parts of
                          [filepath, lineno, code] \<Rightarrow>
                            (let fullpath = path_join root_path filepath;
                                 files1 = (if \<not> dict_has files fullpath
                                           then dict_new fullpath files else files)
                             in case py_int lineno of
                                  Inl e \<Rightarrow> Inl e
                                | Inr n \<Rightarrow>
                                    Inr (dict_append fullpath (n, strip code) files1,
                                         out @ [''[DEBUG] Match: '' @ fullpath @ '':'' @ lineno
                                                  @ '' -> '' @ strip code]))
                        | _ \<Rightarrow> Inl ValueError)))"

fun parse_loop ::
  "string \<Rightarrow> string list \<Rightarrow> files_dict \<times> string list \<Rightarrow> error + (files_dict \<times> string list)" where
  "parse_loop root_path [] st = Inr st"
| "parse_loop root_path (line # rest) st =
     (case parse_line root_path line st of
        Inl e \<Rightarrow> Inl e
      | Inr st' \<Rightarrow> parse_loop root_path rest st')"

text \<open>The lines the loop runs over: \<open>results.strip().split('\n')\<close>.\<close>

definition result_lines :: "string \<Rightarrow> error + string list" where
  "result_lines results = str_split (strip results) [CHR 0x0A] None"

text \<open>Lines 138 to 150: \<open>files = {}\<close> and the loop.\<close>

definition parse_results :: "string \<Rightarrow> string \<Rightarrow> error + (files_dict \<times> string list)" where
  "parse_results root_path results =
     (case result_lines results of
        Inl e \<Rightarrow> Inl e
      | Inr lines \<Rightarrow> parse_loop root_path lines ([], []))"

text \<open>
  Lines 152 to 157: one top-level item per file, labelled with the full path, and one
  child per match with the columns \<open>f"{filepath}:{lineno}"\<close> and \<open>code\<close>.
\<close>

type_synonym tree_item = "string \<times> (string \<times> string) list"

definition build_tree :: "files_dict \<Rightarrow> tree_item list" where
  "build_tree files =
     map (\<lambda>(filepath, lines).
            (filepath, map (\<lambda>(lineno, code). (filepath @ '':'' @ str_int lineno, code)) lines))
         files"

text \<open>
  The widget state the handler touches, and what it does to the outside: what it prints,
  the \<open>rg\<close> process it starts (command and working directory) and the shell commands it
  passes to \<open>os.system\<close>. The search runner is a parameter: it answers with the text
  \<open>rg\<close> wrote, with a non-zero exit, with \<open>FileNotFoundError\<close>, or with an exception
  the handler does not catch.
\<close>

datatype event = Print string | Run "string list" string | System string

datatype rg_outcome = Output string | CalledProcessError string | FileNotFoundError | OtherFailure

record viewer =
  tree :: "tree_item list"
  last_sdk_path :: string
  delegate :: "string option"

definition perform_search ::
  "(string list \<Rightarrow> string \<Rightarrow> rg_outcome) \<Rightarrow> string \<Rightarrow> string \<Rightarrow> viewer
     \<Rightarrow> error + (viewer \<times> event list)" where
  "perform_search rg query_text path_text v =
     (let v1 = v\<lparr>tree := []\<rparr>;
          keyword = strip query_text;
          root_path = strip path_text
      in if keyword = [] \<or> root_path = [] then
           Inr (v1, [Print ''[WARN] Missing keyword or SDK path''])
         else
           (let v2 = v1\<lparr>last_sdk_path := root_path\<rparr>;
                cmd = [''rg'', ''--no-ignore'', ''--color=never'', ''--with-filename'',
                       ''--line-number'', ''--glob'', ''**/*.c'', ''--glob'', ''**/*.h'', keyword];
                ev = [Print (''[INFO] Running: '' @ str_join '' '' cmd),
                      Print (''[INFO] In directory: '' @ root_path),
                      Run cmd root_path]
            in case rg cmd root_path of
                 CalledProcessError output \<Rightarrow>
                   Inr (v2, ev @ [Print ''[ERROR] ripgrep returned non-zero exit code'',
                                  Print output])
               | FileNotFoundError \<Rightarrow>
                   Inr (v2, ev @ [Print ''[ERROR] ripgrep (rg) is not installed or not in PATH''])
               | OtherFailure \<Rightarrow> Inl OSError
               | Output results \<Rightarrow>
                   (case parse_results root_path results of
                      Inl e \<Rightarrow> Inl e
                    | Inr (files, out) \<Rightarrow>
                        Inr (v2\<lparr>tree := build_tree files, delegate := Some keyword\<rparr>,
                             ev @ [Print ''[INFO] ripgrep output:'', Print results]
                                @ map Print out))))"

section \<open>RipgrepTreeViewer.open\_file\_location\<close>

text \<open>\<open>label\<close> is \<open>item.text(0)\<close>, the first column of the activated item.\<close>

definition open_file_location :: "string \<Rightarrow> error + event list" where
  "open_file_location label =
     (if str_contains '':'' label then
        (case str_split label '':'' (Some 1) of
           Inl e \<Rightarrow> Inl e
         | Inr [filepath, lineno] \<Rightarrow>
             Inr [Print (''[INFO] Opening file: '' @ filepath @ '' at line '' @ lineno),
                  System (''code -g '' @ [CHR 0x22] @ filepath @ [CHR 0x22] @ '':'' @ lineno)]
         | Inr _ \<Rightarrow> Inl ValueError)
      else Inr [System (''code '' @ [CHR 0x22] @ label @ [CHR 0x22])])"

section \<open>Notions used to state the properties\<close>

text \<open>
  The text before the first colon of a string, and the text behind it (both are the
  whole string and the empty string when there is no colon).
\<close>

definition before_colon :: "string \<Rightarrow> string" where
  "before_colon s = takeWhile (\<lambda>x. x \<noteq> CHR '':'') s"

definition after_colon :: "string \<Rightarrow> string" where
  "after_colon s = drop 1 (dropWhile (\<lambda>x. x \<noteq> CHR '':'') s)"

text \<open>
  A malformed line, in the words of the two guards of the loop: it has no colon, or
  \<open>line.split(':', 2)\<close> has fewer than three parts.
\<close>

definition malformed :: "string \<Rightarrow> bool" where
  "malformed line = (\<not> str_contains '':'' line \<or> length (split_from '':'' (Some 2) line) < 3)"

text \<open>
  The elements of a list in the order in which each is seen first.
\<close>

fun first_seen :: "'a list \<Rightarrow> 'a list" where
  "first_seen [] = []"
| "first_seen (x # xs) = x # first_seen (removeAll x xs)"

text \<open>
  Grouping a list of (key, value) entries: the keys in first-seen order, each with its
  values in the order of the list.
\<close>

definition group_by_key :: "('k \<times> 'v) list \<Rightarrow> ('k \<times> 'v list) list" where
  "group_by_key es =
     map (\<lambda>k. (k, map snd (filter (\<lambda>e. fst e = k) es))) (first_seen (map fst es))"

text \<open>
  A line the loop keeps has at least two colons. Its line-number field stands between
  the first two colons. When \<open>int\<close> accepts the field, the line stands for the entry
  \<open>match_of\<close>: the joined path with the number and the stripped rest; \<open>debug_line\<close> is
  what the loop prints for it.
\<close>

definition kept :: "string \<Rightarrow> bool" where
  "kept line = (2 \<le> count_list line (CHR '':''))"

definition number_field :: "string \<Rightarrow> string" where
  "number_field line = before_colon (after_colon line)"

definition match_of :: "string \<Rightarrow> string \<Rightarrow> string \<times> match_line" where
  "match_of root_path line =
     (path_join root_path (before_colon line),
      (projr (py_int (number_field line)), strip (after_colon (after_colon line))))"

definition debug_line :: "string \<Rightarrow> string \<Rightarrow> string" where
  "debug_line root_path line =
     ''[DEBUG] Match: '' @ path_join root_path (before_colon line) @ '':'' @ number_field line
       @ '' -> '' @ strip (after_colon (after_colon line))"

section \<open>Splitting at colons\<close>

lemma split_from_not_Nil: "split_from sep m s \<noteq> []"
  by (induction s) (auto split: list.splits)

lemma split_from_zero: "split_from sep (Some 0) s = [s]"
  by (induction s) auto

lemma split_from_no_sep: "c \<notin> set a \<Longrightarrow> split_from [c] m a = [a]"
  by (induction a) auto

lemma split_from_cut:
  "c \<notin> set a \<Longrightarrow> m \<noteq> Some 0 \<Longrightarrow>
   split_from [c] m (a @ c # rest) = a # split_from [c] (map_option (\<lambda>k. k - 1) m) rest"
  by (induction a) auto

lemma str_contains_char: "str_contains [c] s = (c \<in> set s)"
  by (induction s) auto

lemma colon_decomp:
  "CHR '':'' \<in> set s \<Longrightarrow> s = before_colon s @ CHR '':'' # after_colon s"
  unfolding before_colon_def after_colon_def
  by (induction s) auto

lemma before_colon_no_colon: "CHR '':'' \<notin> set (before_colon s)"
  unfolding before_colon_def by (induction s) auto

lemma count_colon_decomp:
  "CHR '':'' \<in> set s \<Longrightarrow> count_list s (CHR '':'') = Suc (count_list (after_colon s) (CHR '':''))"
  unfolding after_colon_def by (induction s) auto

lemma count_list_pos: "0 < count_list s c \<longleftrightarrow> c \<in> set s"
  by (induction s) auto

lemma split_colon_2:
  assumes "2 \<le> count_list line (CHR '':'')"
  shows "split_from '':'' (Some 2) line =
           [before_colon line, before_colon (after_colon line), after_colon (after_colon line)]"
proof -
  let ?r = "after_colon line"
  from assms have in1: "CHR '':'' \<in> set line"
    using count_list_pos [of line "CHR '':''"] by simp
  then have cnt: "count_list line (CHR '':'') = Suc (count_list ?r (CHR '':''))"
    by (rule count_colon_decomp)
  with assms have in2: "CHR '':'' \<in> set ?r"
    using count_list_pos [of ?r "CHR '':''"] by simp
  have l1: "line = before_colon line @ CHR '':'' # ?r"
    using in1 by (rule colon_decomp)
  have l2: "?r = before_colon ?r @ CHR '':'' # after_colon ?r"
    using in2 by (rule colon_decomp)
  have "split_from '':'' (Some 2) line
          = split_from '':'' (Some 2) (before_colon line @ CHR '':'' # ?r)"
    using l1 by simp
  also have "\<dots> = before_colon line # split_from '':'' (Some 1) ?r"
    by (simp add: split_from_cut before_colon_no_colon)
  also have "split_from '':'' (Some 1) ?r
          = split_from '':'' (Some 1) (before_colon ?r @ CHR '':'' # after_colon ?r)"
    using l2 by simp
  also have "\<dots> = before_colon ?r # split_from '':'' (Some 0) (after_colon ?r)"
    by (simp add: split_from_cut before_colon_no_colon)
  finally show ?thesis
    by (simp add: split_from_zero)
qed

lemma split_colon_lt2:
  assumes "count_list line (CHR '':'') < 2"
  shows "length (split_from '':'' (Some 2) line) < 3"
proof (cases "CHR '':'' \<in> set line")
  case False
  then show ?thesis by (simp add: split_from_no_sep)
next
  case True
  let ?r = "after_colon line"
  from True have cnt: "count_list line (CHR '':'') = Suc (count_list ?r (CHR '':''))"
    by (rule count_colon_decomp)
  with assms have notin: "CHR '':'' \<notin> set ?r"
    using count_list_pos [of ?r "CHR '':''"] by simp
  have l1: "line = before_colon line @ CHR '':'' # ?r"
    using True by (rule colon_decomp)
  have "split_from '':'' (Some 2) line
          = split_from '':'' (Some 2) (before_colon line @ CHR '':'' # ?r)"
    using l1 by simp
  also have "\<dots> = before_colon line # split_from '':'' (Some 1) ?r"
    by (simp add: split_from_cut before_colon_no_colon)
  finally show ?thesis
    using notin by (simp add: split_from_no_sep)
qed

lemma parse_line_skip:
  assumes "count_list line (CHR '':'') < 2"
  shows "parse_line root_path line st = Inr st"
  using split_colon_lt2 [OF assms]
  by (cases st) (simp add: parse_line_def str_split_def)

lemma parse_line_keep:
  assumes "2 \<le> count_list line (CHR '':'')"
  shows "parse_line root_path line (files, out) =
     (case py_int (before_colon (after_colon line)) of
        Inl e \<Rightarrow> Inl e
      | Inr n \<Rightarrow>
          Inr (dict_append (path_join root_path (before_colon line))
                 (n, strip (after_colon (after_colon line)))
                 (if dict_has files (path_join root_path (before_colon line)) then files
                  else dict_new (path_join root_path (before_colon line)) files),
               out @ [''[DEBUG] Match: '' @ path_join root_path (before_colon line) @ '':''
                        @ before_colon (after_colon line) @ '' -> ''
                        @ strip (after_colon (after_colon line))]))"
proof -
  from assms have "CHR '':'' \<in> set line"
    using count_list_pos [of line "CHR '':''"] by simp
  then show ?thesis
    using split_colon_2 [OF assms]
    by (simp add: parse_line_def str_split_def str_contains_char Let_def split: sum.splits)
qed

lemma malformed_iff: "malformed line \<longleftrightarrow> count_list line (CHR '':'') < 2"
proof (cases "count_list line (CHR '':'') < 2")
  case True
  then show ?thesis using split_colon_lt2 [of line] by (simp add: malformed_def)
next
  case False
  then have two: "2 \<le> count_list line (CHR '':'')" by simp
  then have "CHR '':'' \<in> set line" using count_list_pos [of line "CHR '':''"] by simp
  then show ?thesis using split_colon_2 [OF two] False
    by (simp add: malformed_def str_contains_char)
qed

lemma parse_loop_append:
  "parse_loop root_path (xs @ ys) st =
     (case parse_loop root_path xs st of Inl e \<Rightarrow> Inl e | Inr st' \<Rightarrow> parse_loop root_path ys st')"
  by (induction xs arbitrary: st) (auto split: sum.splits)

section \<open>Malformed lines\<close>

text \<open>
  C4. A line with no colon, or one that \<open>split(':', 2)\<close> cuts into fewer than three
  parts, leaves the state of the loop as it is and raises nothing: the loop over the
  lines gives what it gives without that line, and so does the parse of a raw output
  that has the line. The empty raw output gives the empty result.
\<close>

theorem malformed_lines_dropped:
  assumes "malformed line"
  shows "parse_line root_path line st = Inr st
       \<and> parse_loop root_path (pre @ line # post) st0 = parse_loop root_path (pre @ post) st0
       \<and> (result_lines results = Inr (pre @ line # post)
            \<longrightarrow> parse_results root_path results = parse_loop root_path (pre @ post) ([], []))
       \<and> parse_results root_path [] = Inr ([], [])"
proof -
  from assms have skip: "parse_line root_path line s = Inr s" for s
    by (simp add: malformed_iff parse_line_skip)
  have loop: "parse_loop root_path (pre @ line # post) s = parse_loop root_path (pre @ post) s" for s
    by (simp add: parse_loop_append skip split: sum.splits)
  have empty: "parse_results root_path [] = Inr ([], [])"
    by (simp add: parse_results_def result_lines_def str_split_def strip_def lstrip_def
        rstrip_def parse_line_def)
  show ?thesis
    using skip loop empty by (simp add: parse_results_def)
qed

theorem malformed_lines_dropped_witness:
  "malformed ''only:onecolon''
   \<and> parse_results ''/sdk'' (''noColonHere'' @ [CHR 0x0A] @ ''only:onecolon'' @ [CHR 0x0A] @ ''a.c:1:x'')
       = Inr ([(''/sdk/a.c'', [(1, ''x'')])], [''[DEBUG] Match: /sdk/a.c:1 -> x''])
   \<and> parse_results ''/sdk'' (''noColonHere'' @ [CHR 0x0A] @ ''only:onecolon'') = Inr ([], [])"
proof -
  let ?raw = "''noColonHere'' @ [CHR 0x0A] @ ''only:onecolon'' @ [CHR 0x0A] @ ''a.c:1:x''"
  let ?raw2 = "''noColonHere'' @ [CHR 0x0A] @ ''only:onecolon''"
  have m: "malformed ''only:onecolon''" by code_simp
  have l: "result_lines ?raw = Inr ([''noColonHere''] @ ''only:onecolon'' # [''a.c:1:x''])"
    by code_simp
  have l2: "result_lines ?raw2 = Inr ([''noColonHere''] @ ''only:onecolon'' # [])"
    by code_simp
  have e: "parse_loop ''/sdk'' ([''noColonHere''] @ [''a.c:1:x'']) ([], [])
             = Inr ([(''/sdk/a.c'', [(1, ''x'')])], [''[DEBUG] Match: /sdk/a.c:1 -> x''])"
    by code_simp
  have e2: "parse_loop ''/sdk'' ([''noColonHere''] @ []) ([], []) = Inr ([], [])"
    by code_simp
  show ?thesis
    using m l l2 e e2
      malformed_lines_dropped [OF m, of "''/sdk''" _ "[''noColonHere'']" "[''a.c:1:x'']" _ ?raw]
      malformed_lines_dropped [OF m, of "''/sdk''" _ "[''noColonHere'']" "[]" _ ?raw2]
    by simp
qed

section \<open>Lines with two colons\<close>

text \<open>
  C6. A line with at least two colons is cut into exactly three parts at its first two
  colons: the text before the first colon, the text between the first and the second, and
  everything behind the second colon, which is not cut again whatever colons it has. When
  \<open>int\<close> accepts the middle part, the match appended for the line has the third part,
  stripped of leading and trailing whitespace, as its text.
\<close>

theorem line_split_three_parts:
  assumes "2 \<le> count_list line (CHR '':'')"
  shows "str_split line '':'' (Some 2)
           = Inr [before_colon line, before_colon (after_colon line), after_colon (after_colon line)]
       \<and> line = before_colon line @ '':'' @ before_colon (after_colon line) @ '':''
                  @ after_colon (after_colon line)
       \<and> CHR '':'' \<notin> set (before_colon line)
       \<and> CHR '':'' \<notin> set (before_colon (after_colon line))
       \<and> (py_int (before_colon (after_colon line)) = Inr n \<longrightarrow>
            parse_line root_path line (files, out) =
              Inr (dict_append (path_join root_path (before_colon line))
                     (n, strip (after_colon (after_colon line)))
                     (if dict_has files (path_join root_path (before_colon line)) then files
                      else dict_new (path_join root_path (before_colon line)) files),
                   out @ [''[DEBUG] Match: '' @ path_join root_path (before_colon line) @ '':''
                            @ before_colon (after_colon line) @ '' -> ''
                            @ strip (after_colon (after_colon line))]))"
proof -
  let ?r = "after_colon line"
  from assms have in1: "CHR '':'' \<in> set line"
    using count_list_pos [of line "CHR '':''"] by simp
  then have cnt: "count_list line (CHR '':'') = Suc (count_list ?r (CHR '':''))"
    by (rule count_colon_decomp)
  with assms have in2: "CHR '':'' \<in> set ?r"
    using count_list_pos [of ?r "CHR '':''"] by simp
  have l1: "line = before_colon line @ CHR '':'' # ?r"
    using in1 by (rule colon_decomp)
  have l2: "?r = before_colon ?r @ CHR '':'' # after_colon ?r"
    using in2 by (rule colon_decomp)
  have whole: "line = before_colon line @ '':'' @ before_colon ?r @ '':'' @ after_colon ?r"
    using l1 l2 by simp
  have split: "str_split line '':'' (Some 2) = Inr [before_colon line, before_colon ?r, after_colon ?r]"
    using split_colon_2 [OF assms] by (simp add: str_split_def)
  show ?thesis
    using split whole before_colon_no_colon parse_line_keep [OF assms, of root_path files out]
    by simp
qed

theorem line_split_three_parts_witness:
  "2 \<le> count_list ''a.c:7: std::cout << x; '' (CHR '':'')
   \<and> str_split ''a.c:7: std::cout << x; '' '':'' (Some 2) = Inr [''a.c'', ''7'', '' std::cout << x; '']
   \<and> parse_line ''/sdk'' ''a.c:7: std::cout << x; '' ([], [])
       = Inr ([(''/sdk/a.c'', [(7, ''std::cout << x;'')])],
              [''[DEBUG] Match: /sdk/a.c:7 -> std::cout << x;''])"
proof -
  let ?L = "''a.c:7: std::cout << x; ''"
  have h: "2 \<le> count_list ?L (CHR '':'')" by code_simp
  have b0: "before_colon ?L = ''a.c''" by code_simp
  have b1: "before_colon (after_colon ?L) = ''7''" by code_simp
  have b2: "after_colon (after_colon ?L) = '' std::cout << x; ''" by code_simp
  have n: "py_int ''7'' = Inr 7" by code_simp
  have s: "strip '' std::cout << x; '' = ''std::cout << x;''" by code_simp
  have j: "path_join ''/sdk'' ''a.c'' = ''/sdk/a.c''" by code_simp
  have d: "dict_append ''/sdk/a.c'' (7, ''std::cout << x;'')
             (if dict_has [] ''/sdk/a.c'' then [] else dict_new ''/sdk/a.c'' [])
           = [(''/sdk/a.c'', [(7, ''std::cout << x;'')])]"
    by code_simp
  note t = line_split_three_parts [OF h, of 7 "''/sdk''" "[]" "[]", unfolded b0 b1 b2 s j d]
  from t have t1: "str_split ?L '':'' (Some 2) = Inr [''a.c'', ''7'', '' std::cout << x; '']"
    by (rule conjunct1)
  from t n have t2: "parse_line ''/sdk'' ?L ([], [])
       = Inr ([(''/sdk/a.c'', [(7, ''std::cout << x;'')])],
              [''[DEBUG] Match: /sdk/a.c:7 -> std::cout << x;''])"
    by simp
  from h t1 t2 show ?thesis by (intro conjI)
qed

section \<open>The loop as a grouping of the kept lines\<close>

lemma set_first_seen: "set (first_seen xs) = set xs"
  by (induction xs rule: first_seen.induct) auto


lemma first_seen_snoc:
  "first_seen (xs @ [y]) = (if y \<in> set xs then first_seen xs else first_seen xs @ [y])"
  by (induction xs rule: first_seen.induct) auto

lemma group_by_key_Nil: "group_by_key [] = []"
  by (simp add: group_by_key_def)

lemma keys_group_by_key: "map fst (group_by_key es) = first_seen (map fst es)"
  by (simp add: group_by_key_def comp_def)

lemma group_by_key_snoc:
  "dict_append k v (if dict_has (group_by_key es) k then group_by_key es
                    else dict_new k (group_by_key es))
     = group_by_key (es @ [(k, v)])"
proof (cases "k \<in> set (map fst es)")
  case True
  then have has: "dict_has (group_by_key es) k"
    by (simp add: dict_has_def keys_group_by_key set_first_seen del: set_map)
  show ?thesis
    using True has
    by (simp add: group_by_key_def dict_append_def first_seen_snoc comp_def del: set_map)
next
  case False
  then have has: "\<not> dict_has (group_by_key es) k"
    by (simp add: dict_has_def keys_group_by_key set_first_seen del: set_map)
  from False have none: "filter (\<lambda>e. fst e = k) es = []"
    by (auto simp: filter_empty_conv)
  from False have other: "\<forall>k'\<in>set (first_seen (map fst es)). k \<noteq> k'"
    by (auto simp: set_first_seen)
  show ?thesis
    using False has none other
    by (auto simp add: group_by_key_def dict_append_def dict_new_def first_seen_snoc comp_def
        simp del: set_map cong: map_cong)
qed

lemma py_int_error: "py_int s = Inl e \<Longrightarrow> e = ValueError"
  by (auto simp: py_int_def split: list.splits if_splits option.splits)

text \<open>
  What \<open>int\<close> skips is not what \<open>str.strip\<close> strips: a field padded with FS or US is
  refused, one padded with NEL or NBSP is read. More than 4300 digits are refused.
\<close>

lemma py_int_control_characters:
  "py_int [CHR 0x1C, CHR ''5''] = Inl ValueError
   \<and> py_int [CHR ''5'', CHR 0x1F] = Inl ValueError
   \<and> py_int [CHR 0x85, CHR ''+'', CHR ''5'', CHR 0xA0] = Inr 5
   \<and> strip [CHR 0x1C, CHR ''5'', CHR 0x1F] = ''5''"
  by code_simp

lemma isdigit_not_int_isspace: "isdigit c \<Longrightarrow> \<not> int_isspace c"
  by (auto simp: isdigit_def int_isspace_def int_whitespace_def)

lemma digits_dropWhile_space:
  "filter isdigit (dropWhile int_isspace xs) = filter isdigit xs"
  by (induction xs) (auto dest: isdigit_not_int_isspace)

lemma digits_int_strip: "filter isdigit (int_strip s) = filter isdigit s"
proof -
  have "filter isdigit (int_strip s)
          = rev (filter isdigit (dropWhile int_isspace (rev (dropWhile int_isspace s))))"
    by (simp add: int_strip_def rev_filter)
  also have "\<dots> = rev (filter isdigit (rev (dropWhile int_isspace s)))"
    by (simp only: digits_dropWhile_space)
  also have "\<dots> = filter isdigit (dropWhile int_isspace s)"
    by (simp add: rev_filter)
  also have "\<dots> = filter isdigit s"
    by (rule digits_dropWhile_space)
  finally show ?thesis .
qed

lemma int_literal_limit:
  "int_literal s = Some n \<Longrightarrow> length (filter isdigit s) \<le> int_max_str_digits"
  by (auto simp: int_literal_def split: option.splits if_splits)

lemma py_int_digit_limit:
  assumes "py_int s = Inr n"
  shows "length (filter isdigit s) \<le> 4300"
proof -
  have sign: "\<not> isdigit (CHR ''-'')" "\<not> isdigit (CHR ''+'')"
    by (simp_all add: isdigit_def)
  from assms obtain c r where cr: "int_strip s = c # r"
    by (cases "int_strip s") (auto simp: py_int_def)
  from assms cr have "length (filter isdigit (c # r)) \<le> int_max_str_digits"
    using sign int_literal_limit [of r] int_literal_limit [of "c # r"]
    by (auto simp: py_int_def split: if_splits option.splits)
  then show ?thesis
    using digits_int_strip [of s] cr by (simp add: int_max_str_digits_def)
qed

lemma parse_line_kept:
  assumes "kept line" and "py_int (number_field line) = Inr n"
  shows "parse_line root_path line (group_by_key es, out)
           = Inr (group_by_key (es @ [match_of root_path line]), out @ [debug_line root_path line])"
proof -
  from assms(1) have two: "2 \<le> count_list line (CHR '':'')"
    by (simp add: kept_def)
  have m: "match_of root_path line
             = (path_join root_path (before_colon line), (n, strip (after_colon (after_colon line))))"
    using assms(2) by (simp add: match_of_def)
  show ?thesis
    using assms(2) group_by_key_snoc [of "path_join root_path (before_colon line)"
        "(n, strip (after_colon (after_colon line)))" es]
    unfolding parse_line_keep [OF two] m debug_line_def
    by (simp add: number_field_def)
qed

lemma parse_line_rejected:
  assumes "kept line" and "isl (py_int (number_field line))"
  shows "parse_line root_path line (files, out) = Inl ValueError"
proof -
  from assms(1) have two: "2 \<le> count_list line (CHR '':'')"
    by (simp add: kept_def)
  from assms(2) obtain e where e: "py_int (number_field line) = Inl e"
    by (cases "py_int (number_field line)") auto
  then have "e = ValueError" by (rule py_int_error)
  with e show ?thesis
    unfolding parse_line_keep [OF two] by (simp add: number_field_def)
qed

lemma parse_line_not_kept: "\<not> kept line \<Longrightarrow> parse_line root_path line st = Inr st"
  by (simp add: kept_def parse_line_skip)

lemma parse_loop_accepted:
  assumes "\<forall>l\<in>set lines. kept l \<longrightarrow> \<not> isl (py_int (number_field l))"
  shows "parse_loop root_path lines (group_by_key es, out)
           = Inr (group_by_key (es @ map (match_of root_path) (filter kept lines)),
                  out @ map (debug_line root_path) (filter kept lines))"
  using assms
proof (induction lines arbitrary: es out)
  case Nil
  then show ?case by simp
next
  case (Cons line rest)
  show ?case
  proof (cases "kept line")
    case False
    then show ?thesis
      using Cons by (simp add: parse_line_not_kept)
  next
    case True
    with Cons.prems obtain n where n: "py_int (number_field line) = Inr n"
      by (cases "py_int (number_field line)") auto
    show ?thesis
      using True Cons.prems Cons.IH [of "es @ [match_of root_path line]" "out @ [debug_line root_path line]"]
      by (simp add: parse_line_kept [OF True n])
  qed
qed

lemma parse_loop_rejected:
  assumes "\<exists>l\<in>set lines. kept l \<and> isl (py_int (number_field l))"
  shows "parse_loop root_path lines (group_by_key es, out) = Inl ValueError"
  using assms
proof (induction lines arbitrary: es out)
  case Nil
  then show ?case by simp
next
  case (Cons line rest)
  show ?case
  proof (cases "kept line")
    case False
    then show ?thesis
      using Cons by (simp add: parse_line_not_kept)
  next
    case True
    show ?thesis
    proof (cases "py_int (number_field line)")
      case (Inl e)
      then show ?thesis
        using True by (simp add: parse_line_rejected)
    next
      case (Inr n)
      then show ?thesis
        using True Cons.prems Cons.IH [of "es @ [match_of root_path line]" "out @ [debug_line root_path line]"]
        by (simp add: parse_line_kept [OF True Inr])
    qed
  qed
qed

lemma result_lines_eq: "result_lines results = Inr (split_from [CHR 0x0A] None (strip results))"
  by (simp add: result_lines_def str_split_def)

lemma parse_results_accepted:
  assumes "result_lines results = Inr lines"
    and "\<forall>l\<in>set lines. kept l \<longrightarrow> \<not> isl (py_int (number_field l))"
  shows "parse_results root_path results
           = Inr (group_by_key (map (match_of root_path) (filter kept lines)),
                  map (debug_line root_path) (filter kept lines))"
  using assms(1) parse_loop_accepted [OF assms(2), of root_path "[]" "[]"]
  by (simp add: parse_results_def group_by_key_Nil)

lemma parse_results_rejected:
  assumes "result_lines results = Inr lines"
    and "\<exists>l\<in>set lines. kept l \<and> isl (py_int (number_field l))"
  shows "parse_results root_path results = Inl ValueError"
  using assms(1) parse_loop_rejected [OF assms(2), of root_path "[]" "[]"]
  by (simp add: parse_results_def group_by_key_Nil)

lemma parse_results_Inr_accepted:
  assumes "result_lines results = Inr lines"
    and "parse_results root_path results = Inr r"
  shows "\<forall>l\<in>set lines. kept l \<longrightarrow> \<not> isl (py_int (number_field l))"
proof (rule ccontr)
  assume "\<not> ?thesis"
  then have "\<exists>l\<in>set lines. kept l \<and> isl (py_int (number_field l))" by blast
  from parse_results_rejected [OF assms(1) this, of root_path] assms(2) show False by simp
qed

lemma in_group_by_key:
  "(k, vs) \<in> set (group_by_key es)
     \<longleftrightarrow> k \<in> set (map fst es) \<and> vs = map snd (filter (\<lambda>e. fst e = k) es)"
  by (auto simp: group_by_key_def set_first_seen)


lemma filter_match_of:
  "map snd (filter (\<lambda>e. fst e = fp) (map (match_of root_path) ls))
     = map (\<lambda>l. snd (match_of root_path l))
         (filter (\<lambda>l. path_join root_path (before_colon l) = fp) ls)"
  by (induction ls) (auto simp: match_of_def)

section \<open>Grouping and order\<close>

text \<open>
  C1. When the parse of a raw output returns, its dict is the grouping of the kept lines
  by joined path: the files stand in the order in which each path is first seen among
  the lines, every file has the matches of its own lines in the order of the raw output,
  and the tree has one top-level item per file in the same order. For the lines
  \<open>a.c:3:foo\<close>, \<open>b.c:5:bar\<close>, \<open>a.c:9:baz\<close> the files are \<open>a.c\<close>, \<open>b.c\<close> (under
  the root) and the matches of \<open>a.c\<close> are \<open>(3, foo)\<close>, \<open>(9, baz)\<close>.
\<close>

theorem groups_preserve_order:
  assumes "result_lines results = Inr lines"
    and "parse_results root_path results = Inr (files, out)"
  shows "files = group_by_key (map (match_of root_path) (filter kept lines))
       \<and> map fst files
           = first_seen (map (\<lambda>l. path_join root_path (before_colon l)) (filter kept lines))
       \<and> (\<forall>fp ms. (fp, ms) \<in> set files \<longrightarrow>
             ms = map (\<lambda>l. snd (match_of root_path l))
                    (filter (\<lambda>l. path_join root_path (before_colon l) = fp) (filter kept lines)))
       \<and> map fst (build_tree files) = map fst files"
proof -
  have acc: "\<forall>l\<in>set lines. kept l \<longrightarrow> \<not> isl (py_int (number_field l))"
    using assms by (rule parse_results_Inr_accepted)
  have files: "files = group_by_key (map (match_of root_path) (filter kept lines))"
    using parse_results_accepted [OF assms(1) acc, of root_path] assms(2) by simp
  have keys: "map fst files
           = first_seen (map (\<lambda>l. path_join root_path (before_colon l)) (filter kept lines))"
    unfolding files keys_group_by_key by (simp add: comp_def match_of_def)
  have per_file: "ms = map (\<lambda>l. snd (match_of root_path l))
                    (filter (\<lambda>l. path_join root_path (before_colon l) = fp) (filter kept lines))"
    if "(fp, ms) \<in> set files" for fp ms
    using that unfolding files in_group_by_key filter_match_of by simp
  have tree: "map fst (build_tree files) = map fst files"
    by (simp add: build_tree_def comp_def case_prod_unfold)
  show ?thesis
    using files keys per_file tree by blast
qed

theorem groups_preserve_order_witness:
  "parse_results ''/sdk'' (''a.c:3:foo'' @ [CHR 0x0A] @ ''b.c:5:bar'' @ [CHR 0x0A] @ ''a.c:9:baz'')
     = Inr ([(''/sdk/a.c'', [(3, ''foo''), (9, ''baz'')]), (''/sdk/b.c'', [(5, ''bar'')])],
            [''[DEBUG] Match: /sdk/a.c:3 -> foo'', ''[DEBUG] Match: /sdk/b.c:5 -> bar'',
             ''[DEBUG] Match: /sdk/a.c:9 -> baz''])
   \<and> first_seen (map (\<lambda>l. path_join ''/sdk'' (before_colon l))
                   (filter kept [''a.c:3:foo'', ''b.c:5:bar'', ''a.c:9:baz'']))
       = [''/sdk/a.c'', ''/sdk/b.c'']
   \<and> map fst (build_tree [(''/sdk/a.c'', [(3, ''foo''), (9, ''baz'')]), (''/sdk/b.c'', [(5, ''bar'')])])
       = [''/sdk/a.c'', ''/sdk/b.c'']"
proof -
  let ?raw = "''a.c:3:foo'' @ [CHR 0x0A] @ ''b.c:5:bar'' @ [CHR 0x0A] @ ''a.c:9:baz''"
  let ?files = "[(''/sdk/a.c'', [(3, ''foo''), (9, ''baz'')]), (''/sdk/b.c'', [(5::int, ''bar'')])]"
  let ?out = "[''[DEBUG] Match: /sdk/a.c:3 -> foo'', ''[DEBUG] Match: /sdk/b.c:5 -> bar'',
             ''[DEBUG] Match: /sdk/a.c:9 -> baz'']"
  have l: "result_lines ?raw = Inr [''a.c:3:foo'', ''b.c:5:bar'', ''a.c:9:baz'']"
    by code_simp
  have p: "parse_results ''/sdk'' ?raw = Inr (?files, ?out)"
    by code_simp
  note t = groups_preserve_order [OF l p]
  from t have k: "map fst ?files = first_seen (map (\<lambda>l. path_join ''/sdk'' (before_colon l))
                   (filter kept [''a.c:3:foo'', ''b.c:5:bar'', ''a.c:9:baz'']))"
    by blast
  from t have tr: "map fst (build_tree ?files) = map fst ?files"
    by blast
  from p k tr show ?thesis by simp
qed

section \<open>Matches and their files\<close>



section \<open>When the parse returns\<close>

text \<open>
  C7, as amended. When \<open>int\<close> accepts the line-number field of every kept line, the
  parse raises nothing: it returns the grouping of the kept lines, a function of the raw
  output and the root alone. It is not free of side effects: it prints one
  \<open>[DEBUG] Match\<close> line for every kept line, in the order of the raw output.
\<close>

theorem parse_returns_on_accepted_numbers:
  assumes "result_lines results = Inr lines"
    and "\<forall>l\<in>set lines. kept l \<longrightarrow> \<not> isl (py_int (number_field l))"
  shows "parse_results root_path results
           = Inr (group_by_key (map (match_of root_path) (filter kept lines)),
                  map (debug_line root_path) (filter kept lines))"
  using assms by (rule parse_results_accepted)

theorem parse_returns_on_accepted_numbers_witness:
  "parse_results ''/sdk'' (''a.c:3:foo'' @ [CHR 0x0A] @ ''nocolon'' @ [CHR 0x0A] @ ''b.c: +1_0 :bar'')
     = Inr ([(''/sdk/a.c'', [(3, ''foo'')]), (''/sdk/b.c'', [(10, ''bar'')])],
            [''[DEBUG] Match: /sdk/a.c:3 -> foo'', ''[DEBUG] Match: /sdk/b.c: +1_0  -> bar''])"
proof -
  let ?raw = "''a.c:3:foo'' @ [CHR 0x0A] @ ''nocolon'' @ [CHR 0x0A] @ ''b.c: +1_0 :bar''"
  let ?lines = "[''a.c:3:foo'', ''nocolon'', ''b.c: +1_0 :bar'']"
  have l: "result_lines ?raw = Inr ?lines" by code_simp
  have a: "\<forall>l\<in>set ?lines. kept l \<longrightarrow> \<not> isl (py_int (number_field l))" by code_simp
  have g: "group_by_key (map (match_of ''/sdk'') (filter kept ?lines))
             = [(''/sdk/a.c'', [(3, ''foo'')]), (''/sdk/b.c'', [(10, ''bar'')])]"
    by code_simp
  have d: "map (debug_line ''/sdk'') (filter kept ?lines)
             = [''[DEBUG] Match: /sdk/a.c:3 -> foo'', ''[DEBUG] Match: /sdk/b.c: +1_0  -> bar'']"
    by code_simp
  show ?thesis
    using parse_returns_on_accepted_numbers [OF l a, of "''/sdk''"] unfolding g d .
qed

text \<open>
  The claim as stated, with no side effects, fails: the parse of one well-formed line
  prints a line, here also seen among the events of the whole handler.
\<close>

theorem parse_prints_counterexample:
  "parse_results ''/sdk'' ''a.c:1:x''
     = Inr ([(''/sdk/a.c'', [(1, ''x'')])], [''[DEBUG] Match: /sdk/a.c:1 -> x''])
   \<and> perform_search (\<lambda>cmd cwd. Output ''a.c:1:x'') ''x'' ''/sdk''
         \<lparr>tree = [], last_sdk_path = '''', delegate = None\<rparr>
     = Inr (\<lparr>tree = [(''/sdk/a.c'', [(''/sdk/a.c:1'', ''x'')])], last_sdk_path = ''/sdk'',
              delegate = Some ''x''\<rparr>,
            [Print ''[INFO] Running: rg --no-ignore --color=never --with-filename --line-number --glob **/*.c --glob **/*.h x'',
             Print ''[INFO] In directory: /sdk'',
             Run [''rg'', ''--no-ignore'', ''--color=never'', ''--with-filename'', ''--line-number'',
                  ''--glob'', ''**/*.c'', ''--glob'', ''**/*.h'', ''x''] ''/sdk'',
             Print ''[INFO] ripgrep output:'', Print ''a.c:1:x'',
             Print ''[DEBUG] Match: /sdk/a.c:1 -> x''])"
  by code_simp

section \<open>Line-number fields\<close>

text \<open>
  C2, as amended. No line is skipped for its line-number field. When \<open>int\<close> refuses
  the field of some kept line (a line with at least two colons), the parse raises
  \<open>ValueError\<close> and returns no result. Otherwise the result is the grouping of all kept
  lines, each with the number \<open>int\<close> read, zero and negative numbers too. Lines are
  skipped only for having fewer than two colons.
\<close>

theorem number_field_decides:
  assumes "result_lines results = Inr lines"
  shows "parse_results root_path results
           = (if \<exists>l\<in>set lines. kept l \<and> isl (py_int (number_field l))
              then Inl ValueError
              else Inr (group_by_key (map (match_of root_path) (filter kept lines)),
                        map (debug_line root_path) (filter kept lines)))"
proof (cases "\<exists>l\<in>set lines. kept l \<and> isl (py_int (number_field l))")
  case True
  then show ?thesis
    using parse_results_rejected [OF assms True, of root_path] by simp
next
  case False
  then have acc: "\<forall>l\<in>set lines. kept l \<longrightarrow> \<not> isl (py_int (number_field l))"
    by blast
  show ?thesis
    using False parse_results_accepted [OF assms acc, of root_path] by simp
qed

theorem number_field_decides_witness:
  "parse_results ''/sdk'' (''a.c:0:foo'' @ [CHR 0x0A] @ ''b.c:-5:bar'')
     = Inr ([(''/sdk/a.c'', [(0, ''foo'')]), (''/sdk/b.c'', [(- 5, ''bar'')])],
            [''[DEBUG] Match: /sdk/a.c:0 -> foo'', ''[DEBUG] Match: /sdk/b.c:-5 -> bar''])
   \<and> parse_results ''/sdk'' (''a.c:0:foo'' @ [CHR 0x0A] @ ''b.c:five:bar'') = Inl ValueError"
proof -
  let ?raw1 = "''a.c:0:foo'' @ [CHR 0x0A] @ ''b.c:-5:bar''"
  let ?lines1 = "[''a.c:0:foo'', ''b.c:-5:bar'']"
  let ?raw2 = "''a.c:0:foo'' @ [CHR 0x0A] @ ''b.c:five:bar''"
  let ?lines2 = "[''a.c:0:foo'', ''b.c:five:bar'']"
  have l1: "result_lines ?raw1 = Inr ?lines1" by code_simp
  have l2: "result_lines ?raw2 = Inr ?lines2" by code_simp
  have c1: "(\<exists>l\<in>set ?lines1. kept l \<and> isl (py_int (number_field l))) = False" by code_simp
  have c2: "(\<exists>l\<in>set ?lines2. kept l \<and> isl (py_int (number_field l))) = True" by code_simp
  have g: "group_by_key (map (match_of ''/sdk'') (filter kept ?lines1))
             = [(''/sdk/a.c'', [(0, ''foo'')]), (''/sdk/b.c'', [(- 5, ''bar'')])]"
    by code_simp
  have d: "map (debug_line ''/sdk'') (filter kept ?lines1)
             = [''[DEBUG] Match: /sdk/a.c:0 -> foo'', ''[DEBUG] Match: /sdk/b.c:-5 -> bar'']"
    by code_simp
  have r1: "parse_results ''/sdk'' ?raw1
     = Inr ([(''/sdk/a.c'', [(0, ''foo'')]), (''/sdk/b.c'', [(- 5, ''bar'')])],
            [''[DEBUG] Match: /sdk/a.c:0 -> foo'', ''[DEBUG] Match: /sdk/b.c:-5 -> bar''])"
    using number_field_decides [OF l1, of "''/sdk''"] unfolding c1 g d if_False .
  have r2: "parse_results ''/sdk'' ?raw2 = Inl ValueError"
    using number_field_decides [OF l2, of "''/sdk''"] unfolding c2 if_True .
  from r1 r2 show ?thesis by (rule conjI)
qed

text \<open>
  The claim as stated fails in both directions: a field that \<open>int\<close> refuses is not
  skipped, the exception ends the parse with no result, also when other lines are well
  formed; and a field that parses as zero or as a negative number is kept, not skipped.
\<close>

theorem bad_number_counterexample:
  "parse_results ''/sdk'' (''a.c:x:foo'' @ [CHR 0x0A] @ ''b.c:5:bar'') = Inl ValueError
   \<and> parse_results ''/sdk'' (''a.c:'' @ [CHR 0x1C] @ ''5:foo'') = Inl ValueError
   \<and> parse_results ''/sdk'' (''a.c:0:foo'' @ [CHR 0x0A] @ ''b.c:-5:bar'')
     = Inr ([(''/sdk/a.c'', [(0, ''foo'')]), (''/sdk/b.c'', [(- 5, ''bar'')])],
            [''[DEBUG] Match: /sdk/a.c:0 -> foo'', ''[DEBUG] Match: /sdk/b.c:-5 -> bar''])"
  by code_simp

section \<open>Opening a file\<close>

lemma split_colon_1:
  assumes "CHR '':'' \<in> set label"
  shows "split_from '':'' (Some 1) label = [before_colon label, after_colon label]"
proof -
  have "split_from '':'' (Some 1) label
          = split_from '':'' (Some 1) (before_colon label @ CHR '':'' # after_colon label)"
    using colon_decomp [OF assms] by simp
  also have "\<dots> = before_colon label # split_from '':'' (Some 0) (after_colon label)"
    by (simp add: split_from_cut before_colon_no_colon)
  finally show ?thesis by (simp add: split_from_zero)
qed

lemma before_colon_path_line:
  "CHR '':'' \<notin> set path \<Longrightarrow> before_colon (path @ CHR '':'' # line) = path"
  by (induction path) (auto simp: before_colon_def)

lemma after_colon_path_line:
  "CHR '':'' \<notin> set path \<Longrightarrow> after_colon (path @ CHR '':'' # line) = line"
  by (induction path) (auto simp: after_colon_def)

lemma before_colon_truncates:
  "CHR '':'' \<in> set path \<Longrightarrow>
     before_colon (path @ rest) = before_colon path \<and> length (before_colon path) < length path"
  by (induction path) (auto simp: before_colon_def)

text \<open>
  C10. A label with a colon is cut at its first colon: the text before it is the file
  path and the text behind it the line number that the handler prints and passes to
  \<open>code -g\<close>. For a label \<open>path:line\<close> the two parts are \<open>path\<close> and \<open>line\<close>
  exactly when \<open>path\<close> has no colon; a path with a colon is cut short at its first colon.
  A label with no colon is passed to \<open>code\<close> whole, with no line number.
\<close>

theorem open_file_location_first_colon:
  "(CHR '':'' \<in> set label \<longrightarrow>
      open_file_location label
        = Inr [Print (''[INFO] Opening file: '' @ before_colon label @ '' at line ''
                        @ after_colon label),
               System (''code -g '' @ [CHR 0x22] @ before_colon label @ [CHR 0x22] @ '':''
                         @ after_colon label)])
   \<and> (CHR '':'' \<notin> set label \<longrightarrow>
      open_file_location label = Inr [System (''code '' @ [CHR 0x22] @ label @ [CHR 0x22])])
   \<and> ((before_colon (path @ '':'' @ line) = path \<and> after_colon (path @ '':'' @ line) = line)
        \<longleftrightarrow> CHR '':'' \<notin> set path)
   \<and> (CHR '':'' \<in> set path \<longrightarrow>
        before_colon (path @ '':'' @ line) = before_colon path
        \<and> length (before_colon path) < length path)"
proof -
  have a: "open_file_location label
        = Inr [Print (''[INFO] Opening file: '' @ before_colon label @ '' at line ''
                        @ after_colon label),
               System (''code -g '' @ [CHR 0x22] @ before_colon label @ [CHR 0x22] @ '':''
                         @ after_colon label)]"
    if "CHR '':'' \<in> set label"
    using that split_colon_1 [OF that]
    by (simp add: open_file_location_def str_contains_char str_split_def)
  have b: "open_file_location label = Inr [System (''code '' @ [CHR 0x22] @ label @ [CHR 0x22])]"
    if "CHR '':'' \<notin> set label"
    using that by (simp add: open_file_location_def str_contains_char)
  have c: "(before_colon (path @ '':'' @ line) = path \<and> after_colon (path @ '':'' @ line) = line)
        \<longleftrightarrow> CHR '':'' \<notin> set path"
  proof
    assume "before_colon (path @ '':'' @ line) = path \<and> after_colon (path @ '':'' @ line) = line"
    then have "before_colon (path @ '':'' @ line) = path" ..
    then show "CHR '':'' \<notin> set path"
      using before_colon_no_colon [of "path @ '':'' @ line"] by simp
  next
    assume "CHR '':'' \<notin> set path"
    then show "before_colon (path @ '':'' @ line) = path \<and> after_colon (path @ '':'' @ line) = line"
      by (simp add: before_colon_path_line after_colon_path_line)
  qed
  have d: "before_colon (path @ '':'' @ line) = before_colon path
        \<and> length (before_colon path) < length path"
    if "CHR '':'' \<in> set path"
    using that by (rule before_colon_truncates)
  show ?thesis
    using a b c d by blast
qed

theorem open_file_location_first_colon_witness:
  "open_file_location ''/sdk/a.c:42''
     = Inr [Print ''[INFO] Opening file: /sdk/a.c at line 42'',
            System (''code -g '' @ [CHR 0x22] @ ''/sdk/a.c'' @ [CHR 0x22] @ '':42'')]
   \<and> open_file_location ''/sdk/a.c'' = Inr [System (''code '' @ [CHR 0x22] @ ''/sdk/a.c'' @ [CHR 0x22])]
   \<and> before_colon (''C:/sdk/a.c'' @ '':'' @ ''42'') = ''C''
   \<and> length ''C'' < length ''C:/sdk/a.c''"
proof -
  have i1: "CHR '':'' \<in> set ''/sdk/a.c:42''" by code_simp
  have i2: "CHR '':'' \<notin> set ''/sdk/a.c''" by code_simp
  have i3: "CHR '':'' \<in> set ''C:/sdk/a.c''" by code_simp
  have b1: "before_colon ''/sdk/a.c:42'' = ''/sdk/a.c''" by code_simp
  have a1: "after_colon ''/sdk/a.c:42'' = ''42''" by code_simp
  have b3: "before_colon ''C:/sdk/a.c'' = ''C''" by code_simp
  have s1: "''[INFO] Opening file: '' @ ''/sdk/a.c'' @ '' at line '' @ ''42''
              = ''[INFO] Opening file: /sdk/a.c at line 42''" by code_simp
  have s2: "''code -g '' @ [CHR 0x22] @ ''/sdk/a.c'' @ [CHR 0x22] @ '':'' @ ''42''
              = ''code -g '' @ [CHR 0x22] @ ''/sdk/a.c'' @ [CHR 0x22] @ '':42''" by code_simp
  note t1 = open_file_location_first_colon [of "''/sdk/a.c:42''" "''C:/sdk/a.c''" "''42''"]
  note t2 = open_file_location_first_colon [of "''/sdk/a.c''" "''C:/sdk/a.c''" "''42''"]
  from t1 have "CHR '':'' \<in> set ''/sdk/a.c:42'' \<longrightarrow>
      open_file_location ''/sdk/a.c:42''
        = Inr [Print (''[INFO] Opening file: '' @ before_colon ''/sdk/a.c:42'' @ '' at line ''
                        @ after_colon ''/sdk/a.c:42''),
               System (''code -g '' @ [CHR 0x22] @ before_colon ''/sdk/a.c:42'' @ [CHR 0x22] @ '':''
                         @ after_colon ''/sdk/a.c:42'')]"
    by (rule conjunct1)
  from this i1 have c1: "open_file_location ''/sdk/a.c:42''
     = Inr [Print ''[INFO] Opening file: /sdk/a.c at line 42'',
            System (''code -g '' @ [CHR 0x22] @ ''/sdk/a.c'' @ [CHR 0x22] @ '':42'')]"
    unfolding b1 a1 s1 s2 by (rule mp)
  from t2 have "CHR '':'' \<notin> set ''/sdk/a.c'' \<longrightarrow>
      open_file_location ''/sdk/a.c'' = Inr [System (''code '' @ [CHR 0x22] @ ''/sdk/a.c'' @ [CHR 0x22])]"
    by (elim conjE)
  from this i2 have c2: "open_file_location ''/sdk/a.c''
       = Inr [System (''code '' @ [CHR 0x22] @ ''/sdk/a.c'' @ [CHR 0x22])]"
    by (rule mp)
  from t1 have "CHR '':'' \<in> set ''C:/sdk/a.c'' \<longrightarrow>
        before_colon (''C:/sdk/a.c'' @ '':'' @ ''42'') = before_colon ''C:/sdk/a.c''
        \<and> length (before_colon ''C:/sdk/a.c'') < length ''C:/sdk/a.c''"
    by (elim conjE)
  from this i3 have "before_colon (''C:/sdk/a.c'' @ '':'' @ ''42'') = ''C''
        \<and> length ''C'' < length ''C:/sdk/a.c''"
    unfolding b3 by (rule mp)
  with c1 c2 show ?thesis by (intro conjI) (elim conjE, assumption)+
qed

section \<open>Missing input\<close>

text \<open>
  C9. When the keyword or the root path is empty after stripping, the handler clears the
  tree, prints the warning and returns: no \<open>rg\<close> process is started, whatever the
  runner would answer, the tree stays empty, and neither the delegate nor the remembered
  path changes.
\<close>

theorem missing_input_aborts:
  assumes "strip query_text = [] \<or> strip path_text = []"
  shows "perform_search rg query_text path_text v
           = Inr (v\<lparr>tree := []\<rparr>, [Print ''[WARN] Missing keyword or SDK path''])
       \<and> (\<forall>v' ev. perform_search rg query_text path_text v = Inr (v', ev) \<longrightarrow>
             (\<forall>cmd cwd. Run cmd cwd \<notin> set ev) \<and> tree v' = [] \<and> delegate v' = delegate v
             \<and> last_sdk_path v' = last_sdk_path v)"
  using assms by (auto simp: perform_search_def Let_def)

theorem missing_input_aborts_witness:
  "strip ''  '' = []
   \<and> perform_search (\<lambda>cmd cwd. Output ''a.c:1:x'') ''  '' ''/sdk''
         \<lparr>tree = [(''/old/b.c'', [])], last_sdk_path = ''/old'', delegate = Some ''y''\<rparr>
       = Inr (\<lparr>tree = [], last_sdk_path = ''/old'', delegate = Some ''y''\<rparr>,
              [Print ''[WARN] Missing keyword or SDK path''])"
proof -
  have s: "strip ''  '' = []" by code_simp
  then have h: "strip ''  '' = [] \<or> strip ''/sdk'' = []" by (rule disjI1)
  have u: "\<lparr>tree = [(''/old/b.c'', [])], last_sdk_path = ''/old'', delegate = Some ''y''\<rparr>\<lparr>tree := []\<rparr>
             = \<lparr>tree = [], last_sdk_path = ''/old'', delegate = Some ''y''\<rparr>"
    by simp
  from missing_input_aborts [OF h, of "\<lambda>cmd cwd. Output ''a.c:1:x''"
      "\<lparr>tree = [(''/old/b.c'', [])], last_sdk_path = ''/old'', delegate = Some ''y''\<rparr>"]
  have "perform_search (\<lambda>cmd cwd. Output ''a.c:1:x'') ''  '' ''/sdk''
         \<lparr>tree = [(''/old/b.c'', [])], last_sdk_path = ''/old'', delegate = Some ''y''\<rparr>
       = Inr (\<lparr>tree = [], last_sdk_path = ''/old'', delegate = Some ''y''\<rparr>,
              [Print ''[WARN] Missing keyword or SDK path''])"
    unfolding u by (rule conjunct1)
  with s show ?thesis by (rule conjI)
qed

section \<open>Stripping and splitting the raw output\<close>

lemma split_from_join: "sep \<noteq> [] \<Longrightarrow> str_join sep (split_from sep m s) = s"
proof (induction sep m s rule: split_from.induct)
  case (1 sep m)
  then show ?case by simp
next
  case (2 sep m c cs)
  show ?case
  proof (cases "m \<noteq> Some 0 \<and> sep \<noteq> [] \<and> prefix sep (c # cs)")
    case True
    then obtain rest where rest: "c # cs = sep @ rest"
      by (auto simp: prefix_def)
    with \<open>sep \<noteq> []\<close> have d: "drop (length sep - 1) cs = rest"
      by (cases sep) auto
    obtain p ps where pps: "split_from sep (map_option (\<lambda>k. k - 1) m) rest = p # ps"
      using split_from_not_Nil [of sep "map_option (\<lambda>k. k - 1) m" rest]
      by (cases "split_from sep (map_option (\<lambda>k. k - 1) m) rest") auto
    from 2(1) [OF True] \<open>sep \<noteq> []\<close> have j: "str_join sep (p # ps) = rest"
      unfolding d pps by simp
    have "split_from sep m (c # cs) = [] # p # ps"
      using True d pps by simp
    then have "str_join sep (split_from sep m (c # cs)) = sep @ rest"
      using j by simp
    then show ?thesis
      using rest by simp
  next
    case False
    obtain p ps where pps: "split_from sep m cs = p # ps"
      using split_from_not_Nil [of sep m cs] by (cases "split_from sep m cs") auto
    from 2(2) [OF False] \<open>sep \<noteq> []\<close> have "str_join sep (p # ps) = cs"
      unfolding pps by simp
    then show ?thesis
      using False pps by (cases ps) auto
  qed
qed

lemma split_char_pieces: "l \<in> set (split_from [c] None s) \<Longrightarrow> c \<notin> set l"
proof (induction s arbitrary: l)
  case Nil
  then show ?case by simp
next
  case (Cons x xs)
  show ?case
  proof (cases "x = c")
    case True
    with Cons show ?thesis by auto
  next
    case False
    obtain p ps where pps: "split_from [c] None xs = p # ps"
      using split_from_not_Nil [of "[c]" None xs] by (cases "split_from [c] None xs") auto
    with Cons False show ?thesis by auto
  qed
qed

lemma lstrip_pad: "\<forall>c\<in>set pre. isspace c \<Longrightarrow> lstrip (pre @ s) = lstrip s"
  by (simp add: lstrip_def dropWhile_append2)

lemma rstrip_pad: "\<forall>c\<in>set post. isspace c \<Longrightarrow> rstrip (s @ post) = rstrip s"
  by (simp add: rstrip_def dropWhile_append)

lemma strip_pad_left: "\<forall>c\<in>set pre. isspace c \<Longrightarrow> strip (pre @ s) = strip s"
  by (simp add: strip_def lstrip_pad)

lemma strip_pad_right:
  assumes "\<forall>c\<in>set post. isspace c"
  shows "strip (s @ post) = strip s"
proof (cases "\<forall>c\<in>set s. isspace c")
  case True
  with assms have "lstrip (s @ post) = []" and "lstrip s = []"
    by (auto simp: lstrip_def)
  then show ?thesis by (simp add: strip_def)
next
  case False
  then have "lstrip (s @ post) = lstrip s @ post"
    by (auto simp: lstrip_def dropWhile_append)
  then show ?thesis
    using assms by (simp add: strip_def rstrip_pad)
qed

lemma lstrip_decomp:
  "lstrip s = strip s @ rev (takeWhile isspace (rev (lstrip s)))"
  unfolding strip_def rstrip_def
  by (metis rev_append rev_rev_ident takeWhile_dropWhile_id)

lemma strip_decomp:
  "s = takeWhile isspace s @ strip s @ rev (takeWhile isspace (rev (lstrip s)))"
proof -
  have "s = takeWhile isspace s @ lstrip s"
    by (simp add: lstrip_def)
  also have "lstrip s = strip s @ rev (takeWhile isspace (rev (lstrip s)))"
    by (rule lstrip_decomp)
  finally show ?thesis .
qed

lemma strip_ends:
  assumes "strip s \<noteq> []"
  shows "\<not> isspace (hd (strip s)) \<and> \<not> isspace (last (strip s))"
proof -
  let ?l = "lstrip s"
  from assms have ne: "dropWhile isspace (rev ?l) \<noteq> []"
    by (simp add: strip_def rstrip_def)
  then have l: "\<not> isspace (hd (dropWhile isspace (rev ?l)))"
    by (rule hd_dropWhile)
  have last: "last (strip s) = hd (dropWhile isspace (rev ?l))"
    using ne by (simp add: strip_def rstrip_def last_rev)
  from ne have lne: "?l \<noteq> []" by auto
  then have h1: "\<not> isspace (hd ?l)"
    unfolding lstrip_def by (rule hd_dropWhile)
  have "?l = strip s @ rev (takeWhile isspace (rev ?l))"
    by (rule lstrip_decomp)
  with assms have "hd ?l = hd (strip s)"
    by (metis hd_append2)
  with h1 l last show ?thesis by simp
qed

text \<open>
  C8, as amended. Step 1 strips all leading and all trailing whitespace from the raw
  output as a whole and cuts what is left at every line feed. The lines, joined again
  with line feeds, are the stripped output, and no line holds a line feed. What is
  removed is a whitespace prefix and a whitespace suffix of the raw output, up to its
  first and last character that is not whitespace; so raw outputs that differ only by
  whitespace in front or behind have the same lines.
\<close>

theorem result_lines_strip_then_split:
  assumes "result_lines results = Inr lines"
  shows "str_join [CHR 0x0A] lines = strip results
       \<and> (\<forall>l\<in>set lines. CHR 0x0A \<notin> set l)
       \<and> (\<exists>pre post. results = pre @ strip results @ post
             \<and> (\<forall>c\<in>set pre. isspace c) \<and> (\<forall>c\<in>set post. isspace c))
       \<and> (strip results \<noteq> [] \<longrightarrow>
             \<not> isspace (hd (strip results)) \<and> \<not> isspace (last (strip results)))
       \<and> ((\<forall>c\<in>set ws. isspace c) \<longrightarrow>
             result_lines (ws @ results) = Inr lines \<and> result_lines (results @ ws) = Inr lines)"
proof -
  from assms have lines: "lines = split_from [CHR 0x0A] None (strip results)"
    by (simp add: result_lines_eq)
  have a: "str_join [CHR 0x0A] lines = strip results"
    unfolding lines by (simp add: split_from_join)
  have b: "\<forall>l\<in>set lines. CHR 0x0A \<notin> set l"
    unfolding lines using split_char_pieces by blast
  have "results = takeWhile isspace results @ strip results
                    @ rev (takeWhile isspace (rev (lstrip results)))"
    by (rule strip_decomp)
  moreover have "\<forall>c\<in>set (takeWhile isspace results). isspace c"
    by (auto dest: set_takeWhileD)
  moreover have "\<forall>c\<in>set (rev (takeWhile isspace (rev (lstrip results)))). isspace c"
    by (auto dest: set_takeWhileD)
  ultimately have c: "\<exists>pre post. results = pre @ strip results @ post
             \<and> (\<forall>c\<in>set pre. isspace c) \<and> (\<forall>c\<in>set post. isspace c)"
    by blast
  have d: "strip results \<noteq> [] \<longrightarrow>
             \<not> isspace (hd (strip results)) \<and> \<not> isspace (last (strip results))"
    using strip_ends by blast
  have e: "(\<forall>c\<in>set ws. isspace c) \<longrightarrow>
             result_lines (ws @ results) = Inr lines \<and> result_lines (results @ ws) = Inr lines"
    unfolding lines by (simp add: result_lines_eq strip_pad_left strip_pad_right)
  from a b c d e show ?thesis by (intro conjI)
qed

theorem result_lines_strip_then_split_witness:
  "result_lines (CHR 0x0A # ''  a.c:1:x'' @ [CHR 0x0A] @ ''b.c:2:y '' @ [CHR 0x0A, CHR 0x0A])
     = Inr [''a.c:1:x'', ''b.c:2:y'']
   \<and> str_join [CHR 0x0A] [''a.c:1:x'', ''b.c:2:y'']
       = strip (CHR 0x0A # ''  a.c:1:x'' @ [CHR 0x0A] @ ''b.c:2:y '' @ [CHR 0x0A, CHR 0x0A])"
proof -
  let ?raw = "CHR 0x0A # ''  a.c:1:x'' @ [CHR 0x0A] @ ''b.c:2:y '' @ [CHR 0x0A, CHR 0x0A]"
  have l: "result_lines ?raw = Inr [''a.c:1:x'', ''b.c:2:y'']" by code_simp
  from result_lines_strip_then_split [OF l, of "[]"]
  have "str_join [CHR 0x0A] [''a.c:1:x'', ''b.c:2:y''] = strip ?raw"
    by (rule conjunct1)
  with l show ?thesis by (rule conjI)
qed

text \<open>
  The claim as stated fails: a leading blank line and the leading whitespace of the first
  line are removed, and so is more than one trailing line feed. The file path of the
  first line is then joined without its leading blanks, which the loop body alone would
  have kept.
\<close>

theorem leading_whitespace_counterexample:
  "result_lines (CHR 0x0A # ''  a.c:1:x'' @ [CHR 0x0A, CHR 0x0A]) = Inr [''a.c:1:x'']
   \<and> parse_results ''/sdk'' (CHR 0x0A # ''  a.c:1:x'' @ [CHR 0x0A, CHR 0x0A])
       = Inr ([(''/sdk/a.c'', [(1, ''x'')])], [''[DEBUG] Match: /sdk/a.c:1 -> x''])
   \<and> parse_line ''/sdk'' ''  a.c:1:x'' ([], [])
       = Inr ([(''/sdk/  a.c'', [(1, ''x'')])], [''[DEBUG] Match: /sdk/  a.c:1 -> x''])"
  by code_simp

section \<open>Drawing the highlighted text\<close>

lemma str_contains_sublist: "str_contains sub s \<longleftrightarrow> sublist sub s"
  by (induction s) (auto simp: sublist_Cons_right)

lemma str_contains_longer: "str_contains sub s \<Longrightarrow> length sub \<le> length s"
  by (simp add: str_contains_sublist sublist_length_le)

lemma not_contains_butlast: "sep \<noteq> [] \<Longrightarrow> \<not> str_contains sep (butlast sep)"
  using str_contains_longer [of sep "butlast sep"] by (cases sep) auto

lemma split_from_absent: "\<not> str_contains sep s \<Longrightarrow> split_from sep m s = [s]"
  by (induction s) auto

lemma draw_segments_concat: "concat (map fst (draw_segments keyword ps)) = str_join keyword ps"
  by (induction keyword ps rule: draw_segments.induct) auto

lemma draw_segments_keyword:
  "d \<in> set (draw_segments keyword ps) \<Longrightarrow> snd d \<Longrightarrow> fst d = keyword"
  by (induction keyword ps rule: draw_segments.induct) auto

lemma draw_segments_plain:
  "map fst (filter (\<lambda>d. \<not> snd d) (draw_segments keyword ps)) = ps"
  by (induction keyword ps rule: draw_segments.induct) auto

lemma draw_segments_length: "length (draw_segments keyword ps) = 2 * length ps - 1"
  by (induction keyword ps rule: draw_segments.induct) auto

lemma split_last_no_sep:
  "sep \<noteq> [] \<Longrightarrow> m = None \<Longrightarrow> \<not> str_contains sep (last (split_from sep m s))"
proof (induction sep m s rule: split_from.induct)
  case (1 sep m)
  then show ?case by simp
next
  case (2 sep m c cs)
  show ?case
  proof (cases "prefix sep (c # cs)")
    case True
    with 2 show ?thesis
      by (simp add: split_from_not_Nil)
  next
    case False
    obtain p ps where pps: "split_from sep m cs = p # ps"
      using split_from_not_Nil [of sep m cs] by (cases "split_from sep m cs") auto
    from False have ih: "\<not> str_contains sep (last (p # ps))"
      using 2(2) 2(3) 2(4) pps by simp
    show ?thesis
    proof (cases ps)
      case Nil
      have "str_join sep (split_from sep m cs) = cs"
        using 2(3) by (rule split_from_join)
      with pps Nil have "p = cs" by simp
      with False ih Nil show ?thesis
        using pps by simp
    next
      case (Cons q qs)
      with False ih show ?thesis
        using pps by simp
    qed
  qed
qed

lemma split_butlast_no_sep:
  "sep \<noteq> [] \<Longrightarrow> m = None \<Longrightarrow> p \<in> set (butlast (split_from sep m s)) \<Longrightarrow>
     \<not> str_contains sep (p @ butlast sep)"
proof (induction sep m s arbitrary: p rule: split_from.induct)
  case (1 sep m)
  then show ?case by simp
next
  case (2 sep m c cs)
  show ?case
  proof (cases "prefix sep (c # cs)")
    case True
    with 2(3,4,5) have "p = [] \<or> p \<in> set (butlast (split_from sep (map_option (\<lambda>k. k - 1) m)
                          (drop (length sep - 1) cs)))"
      by (simp add: split_from_not_Nil)
    then show ?thesis
    proof
      assume "p = []"
      then show ?thesis using not_contains_butlast [OF 2(3)] by simp
    next
      assume "p \<in> set (butlast (split_from sep (map_option (\<lambda>k. k - 1) m)
                          (drop (length sep - 1) cs)))"
      then show ?thesis
        using 2(1) [of p] True 2(3) 2(4) by simp
    qed
  next
    case False
    obtain q qs where pps: "split_from sep m cs = q # qs"
      using split_from_not_Nil [of sep m cs] by (cases "split_from sep m cs") auto
    have res: "split_from sep m (c # cs) = (c # q) # qs"
      using False pps by simp
    show ?thesis
    proof (cases qs)
      case Nil
      with 2(5) res show ?thesis by simp
    next
      case (Cons r rs)
      with 2(5) res have "p = c # q \<or> p \<in> set (butlast qs)" by simp
      then show ?thesis
      proof
        assume pq: "p = c # q"
        have "q \<in> set (butlast (split_from sep m cs))"
          using pps Cons by simp
        then have nq: "\<not> str_contains sep (q @ butlast sep)"
          using 2(2) [of q] False 2(3) 2(4) by simp
        have "str_join sep (split_from sep m cs) = cs"
          using 2(3) by (rule split_from_join)
        then have cs: "cs = q @ sep @ str_join sep qs"
          using pps Cons by simp
        have "prefix (butlast sep) (sep @ str_join sep qs)"
          by (simp add: prefixeq_butlast)
        then have "prefix (c # q @ butlast sep) (c # cs)"
          unfolding cs by simp
        then have "\<not> prefix sep (c # q @ butlast sep)"
          using False by (meson prefix_order.trans)
        with nq pq show ?thesis by simp
      next
        assume "p \<in> set (butlast qs)"
        then have "p \<in> set (butlast (split_from sep m cs))"
          using pps Cons by simp
        then show ?thesis
          using 2(2) [of p] False 2(3) 2(4) by simp
      qed
    qed
  qed
qed

lemma paint_draws_split:
  "keyword \<noteq> [] \<Longrightarrow> paint keyword text = Inr (draw_segments keyword (split_from keyword None text))"
  by (simp add: paint_def str_split_def split_from_absent)

text \<open>
  C3, as amended. For a non-empty keyword the delegate draws the pieces of
  \<open>text.split(keyword)\<close> with the keyword in red between them. The texts drawn,
  concatenated, are the cell text. Every red draw is the keyword. The other draws are the
  pieces, all of them: an empty piece is drawn as an empty text, not left out, so the
  draws alternate and begin and end with a piece. The keyword occurrences are cut from
  left to right without overlap: the keyword does not occur in a piece followed by the
  keyword less its last character, so the cut is at the first occurrence, and it does not
  occur in the last piece.
\<close>

theorem paint_segments_of_split:
  assumes "keyword \<noteq> []"
  shows "paint keyword text = Inr (draw_segments keyword (split_from keyword None text))
       \<and> concat (map fst (draw_segments keyword (split_from keyword None text))) = text
       \<and> (\<forall>d\<in>set (draw_segments keyword (split_from keyword None text)).
             snd d \<longrightarrow> fst d = keyword)
       \<and> map fst (filter (\<lambda>d. \<not> snd d) (draw_segments keyword (split_from keyword None text)))
           = split_from keyword None text
       \<and> (\<forall>p\<in>set (butlast (split_from keyword None text)).
             \<not> str_contains keyword (p @ butlast keyword))
       \<and> \<not> str_contains keyword (last (split_from keyword None text))
       \<and> length (draw_segments keyword (split_from keyword None text))
           = 2 * length (split_from keyword None text) - 1"
proof -
  let ?segments = "split_from keyword None text"
  have a: "paint keyword text = Inr (draw_segments keyword ?segments)"
    using assms by (rule paint_draws_split)
  have b: "concat (map fst (draw_segments keyword ?segments)) = text"
    using assms by (simp add: draw_segments_concat split_from_join)
  have c: "\<forall>d\<in>set (draw_segments keyword ?segments). snd d \<longrightarrow> fst d = keyword"
    using draw_segments_keyword by blast
  have d: "map fst (filter (\<lambda>d. \<not> snd d) (draw_segments keyword ?segments)) = ?segments"
    by (rule draw_segments_plain)
  have e: "\<forall>p\<in>set (butlast ?segments). \<not> str_contains keyword (p @ butlast keyword)"
    using assms split_butlast_no_sep by blast
  have f: "\<not> str_contains keyword (last ?segments)"
    using assms by (simp add: split_last_no_sep)
  have g: "length (draw_segments keyword ?segments) = 2 * length ?segments - 1"
    by (rule draw_segments_length)
  from a b c d e f g show ?thesis by (intro conjI)
qed

theorem paint_segments_of_split_witness:
  "''aa'' \<noteq> []
   \<and> paint ''aa'' ''aaa'' = Inr [([], False), (''aa'', True), (''a'', False)]
   \<and> concat (map fst [([], False), (''aa'', True), (''a'', False)]) = ''aaa''"
proof -
  have h: "''aa'' \<noteq> []" by simp
  have s: "draw_segments ''aa'' (split_from ''aa'' None ''aaa'')
             = [([], False), (''aa'', True), (''a'', False)]"
    by code_simp
  note t = paint_segments_of_split [OF h, of "''aaa''", unfolded s]
  from t have p: "paint ''aa'' ''aaa'' = Inr [([], False), (''aa'', True), (''a'', False)]"
    by (rule conjunct1)
  from t have c: "concat (map fst [([], False), (''aa'', True), (''a'', False)]) = ''aaa''"
    by (elim conjE)
  from h p c show ?thesis by (intro conjI)
qed

text \<open>
  The claim as stated fails where it says that empty segments are left out and that the
  example has exactly four segments: behind the last \<open>at\<close> the loop draws the empty
  last piece as a fifth segment.
\<close>

theorem empty_segment_drawn_counterexample:
  "paint ''at'' ''the cat sat''
     = Inr [(''the c'', False), (''at'', True), ('' s'', False), (''at'', True), ([], False)]
   \<and> paint ''at'' ''the cat sat''
     \<noteq> Inr [(''the c'', False), (''at'', True), ('' s'', False), (''at'', True)]"
  by code_simp

end
